theory Spec2Isabelle
  imports Main "HOL-Library.Sublist"
begin

section \<open>The sequential rate-limit bucket of src/lib/rest/SequentialBucket.ts\<close>

text \<open>
  The class \<^verbatim>\<open>SequentialBucket\<close> is embedded as a record of its fields together with
  the part of the JavaScript runtime its methods talk to: the pending \<^verbatim>\<open>setTimeout\<close>
  timers and the clock read by \<^verbatim>\<open>Date.now()\<close>. Numbers are modelled as \<open>int\<close>
  (milliseconds and permit counts); the source's \<^verbatim>\<open>number\<close> is an IEEE double, which
  agrees with \<open>int\<close> on integral values below \<open>2 ^ 53\<close>.

  Work items are opaque values of a type \<open>'f\<close>: what a work item does when it is invoked is
  outside the class. Invoking one is recorded in two observation fields that the source does
  not have (\<open>released\<close>, \<open>inflight\<close>); the moment at which its completion callback is
  called is an event supplied from outside.
\<close>

subsection \<open>Data\<close>

text \<open>\<^verbatim>\<open>processing: NodeJS.Timeout | boolean\<close> (line 15).\<close>

datatype processing = PFalse | PTrue | PTimeout nat

text \<open>JavaScript truthiness of that field: only \<^verbatim>\<open>false\<close> is falsy, a Timeout object is truthy.\<close>

fun truthy :: "processing \<Rightarrow> bool" where
  "truthy PFalse = False"
| "truthy PTrue = True"
| "truthy (PTimeout h) = True"

text \<open>\<^verbatim>\<open>LatencyRef\<close>: an object with the single field \<^verbatim>\<open>latency\<close>.\<close>

record latency_ref =
  latency :: int

text \<open>
  The fields of the class, lines 11 to 17. \<open>queue_list\<close> is the private \<^verbatim>\<open>_queue\<close>,
  \<open>last_ts\<close> is \<^verbatim>\<open>last\<close> (renamed: \<open>last\<close> is the list function of HOL).
\<close>

record 'f bucket =
  queue_list :: "'f list"
  last_ts :: int
  latencyRef :: latency_ref
  limit :: int
  processing :: processing
  remaining :: int
  reset :: int

text \<open>
  A pending timer of the runtime: the handle returned by \<^verbatim>\<open>setTimeout\<close>, the time at
  which it was set and the delay that was passed.
\<close>

record timer =
  handle :: nat
  set_at :: int
  delay :: int

text \<open>
  The bucket together with its environment: the pending timers, the next fresh timer handle,
  the work items invoked so far in the order of their invocation (\<open>released\<close>), and those
  of them whose completion callback has not been called yet (\<open>inflight\<close>).
\<close>

record 'f world = "'f bucket" +
  timers :: "timer list"
  next_handle :: nat
  released :: "'f list"
  inflight :: "'f list"

subsection \<open>The constructor, lines 18 to 22\<close>

definition constructor :: "int \<Rightarrow> latency_ref \<Rightarrow> 'f bucket" where
  "constructor lim lref =
     \<lparr>queue_list = [], last_ts = 0, latencyRef = lref, limit = lim,
      processing = PFalse, remaining = lim, reset = 0\<rparr>"

text \<open>A fresh bucket in a runtime in which nothing has happened yet.\<close>

definition init :: "int \<Rightarrow> latency_ref \<Rightarrow> 'f world" where
  "init lim lref =
     bucket.extend (constructor lim lref)
       (world.fields [] 0 [] [])"

subsection \<open>The evaluation routine \<^verbatim>\<open>check\<close>, lines 24 to 60\<close>

text \<open>\<^verbatim>\<open>clearTimeout(h)\<close>: the timer with that handle is no longer pending.\<close>

definition clearTimeout :: "nat \<Rightarrow> timer list \<Rightarrow> timer list" where
  "clearTimeout h ts = filter (\<lambda>t. handle t \<noteq> h) ts"

text \<open>Lines 26 to 31: the queue is empty.\<close>

definition go_idle :: "'f world \<Rightarrow> 'f world" where
  "go_idle w =
     (case processing w of
        PFalse \<Rightarrow> w
      | PTrue \<Rightarrow> w\<lparr>processing := PFalse\<rparr>
      | PTimeout h \<Rightarrow> w\<lparr>processing := PFalse, timers := clearTimeout h (timers w)\<rparr>)"

text \<open>Lines 39 to 42, with \<open>offset\<close> read in line 38: \<^verbatim>\<open>!this.reset\<close> holds of \<open>0\<close>.\<close>

definition refill :: "int \<Rightarrow> 'f world \<Rightarrow> 'f world" where
  "refill now w =
     (let offset = latency (latencyRef w) in
      if reset w = 0 \<or> reset w < now - offset
      then w\<lparr>reset := now - offset, remaining := limit w\<rparr>
      else w)"

text \<open>
  Lines 45 to 49: \<^verbatim>\<open>setTimeout\<close> registers a timer under a fresh handle and returns
  the handle, which is stored in \<^verbatim>\<open>processing\<close>.
\<close>

definition wait_for_reset :: "int \<Rightarrow> 'f world \<Rightarrow> 'f world" where
  "wait_for_reset now w =
     (let offset = latency (latencyRef w);
          h = next_handle w
      in w\<lparr>processing := PTimeout h,
           timers := timers w @
             [\<lparr>handle = h, set_at = now, delay = max 0 (reset w - now + offset) + 1\<rparr>],
           next_handle := Suc h\<rparr>)"

text \<open>
  Lines 51 to 53: the head of the queue is shifted off and invoked. The queue is not empty
  here; on an empty queue the source would throw, which \<open>check\<close> below never reaches.
\<close>

definition release :: "'f world \<Rightarrow> 'f world" where
  "release w =
     (case queue_list w of
        [] \<Rightarrow> w
      | f # q \<Rightarrow>
          w\<lparr>remaining := remaining w - 1, processing := PTrue, queue_list := q,
            released := released w @ [f], inflight := inflight w @ [f]\<rparr>)"

definition check :: "bool \<Rightarrow> int \<Rightarrow> 'f world \<Rightarrow> 'f world" where
  "check force now w =
     (if queue_list w = [] then go_idle w
      else if truthy (processing w) \<and> \<not> force then w
      else
        let w1 = refill now w;
            w2 = w1\<lparr>last_ts := now\<rparr>
        in if remaining w2 \<le> 0 then wait_for_reset now w2 else release w2)"

subsection \<open>The callbacks and \<^verbatim>\<open>queue\<close>\<close>

text \<open>Lines 53 to 59: the completion callback handed to the work item \<open>f\<close>.\<close>

definition complete :: "int \<Rightarrow> 'f \<Rightarrow> 'f world \<Rightarrow> 'f world" where
  "complete now f w =
     (let w' = w\<lparr>inflight := remove1 f (inflight w)\<rparr>
      in if queue_list w' = [] then w'\<lparr>processing := PFalse\<rparr> else check True now w')"

text \<open>Lines 45 to 48: the body of the timer callback.\<close>

definition wake :: "int \<Rightarrow> 'f world \<Rightarrow> 'f world" where
  "wake now w = check True now (w\<lparr>processing := PFalse\<rparr>)"

text \<open>
  The runtime runs the callback of a timer once, when the timer is pending and its delay
  has passed; it is then no longer pending.
\<close>

definition due :: "int \<Rightarrow> nat \<Rightarrow> timer list \<Rightarrow> bool" where
  "due now h ts = list_ex (\<lambda>t. handle t = h \<and> set_at t + delay t \<le> now) ts"

definition fire :: "int \<Rightarrow> nat \<Rightarrow> 'f world \<Rightarrow> 'f world" where
  "fire now h w =
     (if due now h (timers w) then wake now (w\<lparr>timers := clearTimeout h (timers w)\<rparr>) else w)"

text \<open>Lines 67 to 74.\<close>

definition queue :: "int \<Rightarrow> 'f \<Rightarrow> bool \<Rightarrow> 'f world \<Rightarrow> 'f world" where
  "queue now func priority w =
     check False now
       (if priority then w\<lparr>queue_list := func # queue_list w\<rparr>
        else w\<lparr>queue_list := queue_list w @ [func]\<rparr>)"

subsection \<open>Event traces\<close>

text \<open>
  What can happen to a bucket: a call of \<^verbatim>\<open>queue\<close>, the completion callback of a work
  item being called, a timer firing, and the network layer overwriting a public field or the
  shared latency. JavaScript runs each of these to its end before the next one starts; every
  nested call in the source (\<^verbatim>\<open>check\<close> from \<^verbatim>\<open>queue\<close> and from the callbacks, a callback
  called by the work item while it is being invoked) is the last action of its caller, so a
  nested call is the same as the next event.
\<close>

datatype 'f event =
    Queue 'f bool
  | Done 'f
  | Fire nat
  | WriteLimit int
  | WriteRemaining int
  | WriteReset int
  | WriteLatency int

fun step :: "int \<Rightarrow> 'f event \<Rightarrow> 'f world \<Rightarrow> 'f world" where
  "step now (Queue func priority) w = queue now func priority w"
| "step now (Done f) w = complete now f w"
| "step now (Fire h) w = fire now h w"
| "step now (WriteLimit n) w = w\<lparr>limit := n\<rparr>"
| "step now (WriteRemaining n) w = w\<lparr>remaining := n\<rparr>"
| "step now (WriteReset n) w = w\<lparr>reset := n\<rparr>"
| "step now (WriteLatency n) w = w\<lparr>latencyRef := \<lparr>latency = n\<rparr>\<rparr>"

text \<open>A trace is a list of events, each with the value of the clock when it happens.\<close>

fun run :: "(int \<times> 'f event) list \<Rightarrow> 'f world \<Rightarrow> 'f world" where
  "run [] w = w"
| "run ((now, e) # es) w = run es (step now e w)"

subsection \<open>The completion contract\<close>

text \<open>
  The completion callback of a work item exists from the moment the item is invoked, and the
  caller of \<^verbatim>\<open>queue\<close> has to call it once. A trace respects this when every \<open>Done f\<close>
  in it happens while \<open>f\<close> is in flight.
\<close>

fun respects_contract :: "(int \<times> 'f event) list \<Rightarrow> 'f world \<Rightarrow> bool" where
  "respects_contract [] w = True"
| "respects_contract ((now, e) # es) w =
     ((case e of Done f \<Rightarrow> f \<in> set (inflight w) | _ \<Rightarrow> True)
      \<and> respects_contract es (step now e w))"

text \<open>
  The three states of the bucket as \<^verbatim>\<open>processing\<close> encodes them: idle with nothing
  queued, one item in flight, or waiting on exactly the timer whose handle is stored.
\<close>

definition serial :: "'f world \<Rightarrow> bool" where
  "serial w =
     (case processing w of
        PFalse \<Rightarrow> inflight w = [] \<and> timers w = [] \<and> queue_list w = []
      | PTrue \<Rightarrow> length (inflight w) = 1 \<and> timers w = []
      | PTimeout h \<Rightarrow> inflight w = [] \<and> queue_list w \<noteq> [] \<and> map handle (timers w) = [h])"

subsection \<open>Release order\<close>

text \<open>The work items passed to \<^verbatim>\<open>queue\<close> in a trace, and those passed without priority.\<close>

fun enq_item :: "int \<times> 'f event \<Rightarrow> 'f list" where
  "enq_item (now, Queue f p) = [f]"
| "enq_item (now, e) = []"

fun normal_item :: "int \<times> 'f event \<Rightarrow> 'f list" where
  "normal_item (now, Queue f False) = [f]"
| "normal_item (now, e) = []"

definition enqueued :: "(int \<times> 'f event) list \<Rightarrow> 'f list" where
  "enqueued es = concat (map enq_item es)"

definition normals :: "(int \<times> 'f event) list \<Rightarrow> 'f list" where
  "normals es = concat (map normal_item es)"

text \<open>What has been released, followed by what is queued, in queue order.\<close>

definition sched :: "'f world \<Rightarrow> 'f list" where
  "sched w = released w @ queue_list w"

text \<open>\<open>a\<close> occurs in \<open>xs\<close> before the first occurrence of \<open>b\<close>.\<close>

definition precedes :: "'f \<Rightarrow> 'f \<Rightarrow> 'f list \<Rightarrow> bool" where
  "precedes a b xs = (a \<in> set (takeWhile (\<lambda>y. y \<noteq> b) xs))"

subsection \<open>Concrete buckets and traces\<close>

text \<open>A fresh bucket with limit 5 and latency 50 on which \<^verbatim>\<open>queue\<close> has just pushed an item.\<close>

definition queued_demo :: "string world" where
  "queued_demo = (init 5 \<lparr>latency = 50\<rparr>)\<lparr>queue_list := [''a'']\<rparr>"

text \<open>
  The same after the network layer has written \<open>remaining = 0\<close> and a reset time of 6000,
  one second after the evaluation time 5000 used below.
\<close>

definition exhausted_demo :: "string world" where
  "exhausted_demo = (init 5 \<lparr>latency = 50\<rparr>)\<lparr>remaining := 0, reset := 6000, queue_list := [''a'']\<rparr>"

text \<open>A bucket with one item in flight and one queued behind it.\<close>

definition busy_demo :: "string world" where
  "busy_demo = run [(1000, Queue ''a'' False), (1001, Queue ''b'' False)] (init 5 \<lparr>latency = 50\<rparr>)"

text \<open>A trace with normal and priority items, completions, overwrites and a wake-up.\<close>

definition demo_trace :: "(int \<times> string event) list" where
  "demo_trace =
     [(0, Queue ''a'' False), (1, Queue ''b'' False), (2, Queue ''c'' True),
      (3, Done ''a''), (4, WriteRemaining 0), (5, WriteReset 2000), (6, Done ''c''),
      (3000, Fire 0)]"

text \<open>Three normal items, then two priority items while the first normal one is in flight.\<close>

definition order_trace :: "(int \<times> string event) list" where
  "order_trace =
     [(0, Queue ''a'' False), (1, Queue ''b'' False), (2, Queue ''c'' False),
      (3, Queue ''p'' True), (4, Queue ''q'' True),
      (5, Done ''a''), (6, Done ''q''), (7, Done ''p''), (8, Done ''b'')]"

section \<open>Properties\<close>

lemmas bucket_ops = go_idle_def refill_def wait_for_reset_def release_def check_def
  complete_def wake_def fire_def queue_def due_def clearTimeout_def

lemmas init_ops = init_def constructor_def bucket.defs world.defs

lemmas demo_defs = queued_demo_def exhausted_demo_def busy_demo_def demo_trace_def

subsection \<open>One evaluation, by cases\<close>

lemma refill_frame [simp]:
  "queue_list (refill now w) = queue_list w" "processing (refill now w) = processing w"
  "released (refill now w) = released w" "inflight (refill now w) = inflight w"
  "timers (refill now w) = timers w" "next_handle (refill now w) = next_handle w"
  "limit (refill now w) = limit w" "latencyRef (refill now w) = latencyRef w"
  by (simp_all add: refill_def Let_def)

lemma refill_upd [simp]:
  "refill now (w\<lparr>queue_list := q\<rparr>) = (refill now w)\<lparr>queue_list := q\<rparr>"
  "refill now (w\<lparr>processing := p\<rparr>) = (refill now w)\<lparr>processing := p\<rparr>"
  "refill now (w\<lparr>inflight := i\<rparr>) = (refill now w)\<lparr>inflight := i\<rparr>"
  "refill now (w\<lparr>timers := ts\<rparr>) = (refill now w)\<lparr>timers := ts\<rparr>"
  by (simp_all add: refill_def Let_def)

lemma check_wait:
  "queue_list w \<noteq> [] \<Longrightarrow> \<not> truthy (processing w) \<or> force \<Longrightarrow> remaining (refill now w) \<le> 0 \<Longrightarrow>
   check force now w = wait_for_reset now ((refill now w)\<lparr>last_ts := now\<rparr>)"
  by (auto simp: check_def Let_def)

lemma check_release:
  "queue_list w \<noteq> [] \<Longrightarrow> \<not> truthy (processing w) \<or> force \<Longrightarrow> 0 < remaining (refill now w) \<Longrightarrow>
   check force now w = release ((refill now w)\<lparr>last_ts := now\<rparr>)"
  by (auto simp: check_def Let_def)

lemma released_check:
  "released (check force now w) =
     (if queue_list w \<noteq> [] \<and> (\<not> truthy (processing w) \<or> force) \<and> 0 < remaining (refill now w)
      then released w @ [hd (queue_list w)] else released w)"
  by (cases "queue_list w")
     (auto simp: check_def go_idle_def wait_for_reset_def release_def Let_def
           split: processing.splits)

lemma remaining_check:
  "remaining (check force now w) =
     (if queue_list w \<noteq> [] \<and> (\<not> truthy (processing w) \<or> force)
      then (if 0 < remaining (refill now w) then remaining (refill now w) - 1
            else remaining (refill now w))
      else remaining w)"
  by (cases "queue_list w")
     (auto simp: check_def go_idle_def wait_for_reset_def release_def Let_def
           split: processing.splits)

subsection \<open>At most one item in flight\<close>

lemma serial_init: "serial (init lim lref)"
  by (simp add: serial_def init_ops)

lemma serial_check_idle:
  assumes "processing w = PFalse" "inflight w = []" "timers w = []"
  shows "serial (check force now w)"
  using assms
  by (cases "queue_list w")
     (auto simp: serial_def check_def go_idle_def refill_def wait_for_reset_def release_def Let_def)

lemma serial_queue: "serial w \<Longrightarrow> serial (queue now f p w)"
  by (cases "processing w")
     (auto simp: queue_def serial_def check_def go_idle_def refill_def wait_for_reset_def
                 release_def Let_def)

lemma serial_complete:
  assumes "serial w" "f \<in> set (inflight w)"
  shows "serial (complete now f w)"
proof -
  from assms have p: "processing w = PTrue" "inflight w = [f]" "timers w = []"
    by (auto simp: serial_def length_Suc_conv split: processing.splits)
  show ?thesis
  proof (cases "queue_list w")
    case Nil
    with p show ?thesis by (simp add: complete_def serial_def)
  next
    case (Cons g q)
    with p show ?thesis
      by (auto simp: complete_def serial_def check_def refill_def wait_for_reset_def
                     release_def Let_def)
  qed
qed

lemma serial_fire: "serial w \<Longrightarrow> serial (fire now h w)"
proof (cases "due now h (timers w)")
  case False
  assume "serial w"
  with False show ?thesis by (simp add: fire_def)
next
  case True
  assume s: "serial w"
  from True obtain t where t: "t \<in> set (timers w)" "handle t = h"
    by (auto simp: due_def list_ex_iff)
  with s have p: "processing w = PTimeout h" "inflight w = []" "map handle (timers w) = [h]"
    by (auto simp: serial_def split: processing.splits)
  from p(3) have c: "clearTimeout h (timers w) = []"
    by (cases "timers w") (auto simp: clearTimeout_def)
  have "serial (check True now (w\<lparr>timers := [], processing := PFalse\<rparr>))"
    using p by (intro serial_check_idle) simp_all
  with True c show ?thesis
    by (simp add: fire_def wake_def)
qed

lemma serial_step:
  assumes "serial w" "case e of Done f \<Rightarrow> f \<in> set (inflight w) | _ \<Rightarrow> True"
  shows "serial (step now e w)"
proof (cases e)
  case (Queue f p)
  with assms show ?thesis by (simp add: serial_queue)
next
  case (Done f)
  with assms show ?thesis by (simp add: serial_complete)
next
  case (Fire h)
  with assms show ?thesis by (simp add: serial_fire)
qed (use assms in \<open>simp_all add: serial_def split: processing.splits\<close>)

lemma serial_run: "serial w \<Longrightarrow> respects_contract es w \<Longrightarrow> serial (run es w)"
proof (induction es arbitrary: w)
  case Nil
  then show ?case by simp
next
  case (Cons x es)
  obtain now e where x: "x = (now, e)" by (cases x)
  from Cons.prems have "serial (step now e w)" "respects_contract es (step now e w)"
    by (simp_all add: x serial_step)
  then show ?case
    by (simp add: x Cons.IH)
qed

lemma respects_contract_take: "respects_contract es w \<Longrightarrow> respects_contract (take n es) w"
proof (induction es arbitrary: w n)
  case Nil
  then show ?case by simp
next
  case (Cons x es)
  then show ?case by (cases n; cases x) simp_all
qed

lemma serial_inflight: "serial w \<Longrightarrow> length (inflight w) \<le> 1"
  by (auto simp: serial_def split: processing.splits)

text \<open>
  Claim C1. Take any trace of \<^verbatim>\<open>queue\<close> calls, completion signals, timer firings and
  overwrites of the public fields on a fresh bucket, in which a completion is signalled only
  for an item that is in flight. After every prefix of the trace at most one work item has
  been invoked and not yet completed: no second item is invoked before the completion
  callback of the current one has been called.
\<close>

theorem one_item_in_flight:
  assumes "respects_contract es (init lim lref)"
  shows "length (inflight (run (take n es) (init lim lref))) \<le> 1"
proof -
  have "respects_contract (take n es) (init lim lref)"
    using assms by (rule respects_contract_take)
  then have "serial (run (take n es) (init lim lref))"
    by (intro serial_run serial_init)
  then show ?thesis
    by (rule serial_inflight)
qed

theorem one_item_in_flight_witness:
  "respects_contract demo_trace (init 5 \<lparr>latency = 50\<rparr>)
   \<and> length (inflight (run (take 8 demo_trace) (init 5 \<lparr>latency = 50\<rparr>))) \<le> 1
   \<and> inflight (run (take 8 demo_trace) (init 5 \<lparr>latency = 50\<rparr>)) = [''b'']"
proof -
  have h: "respects_contract demo_trace (init 5 \<lparr>latency = 50\<rparr>)"
    by (simp add: demo_defs bucket_ops init_ops)
  have v: "inflight (run (take 8 demo_trace) (init 5 \<lparr>latency = 50\<rparr>)) = [''b'']"
    by (simp add: demo_defs bucket_ops init_ops)
  from h v one_item_in_flight [OF h, of 8] show ?thesis by simp
qed

text \<open>
  Claim C2. In every evaluation, an item is released only when the remaining count after the
  window-refill step is positive, and the release takes exactly one permit from that count;
  this holds for every value of \<open>remaining\<close> at the start, zero and negative values
  included. The same holds of every event on a bucket: no call of \<^verbatim>\<open>queue\<close>, no
  callback and no overwrite releases an item otherwise.
\<close>

theorem release_needs_quota:
  "(released (check force now w) \<noteq> released w \<longrightarrow>
      0 < remaining (refill now w)
      \<and> remaining (check force now w) = remaining (refill now w) - 1
      \<and> released (check force now w) = released w @ [hd (queue_list w)])
   \<and> (released (step t e v) \<noteq> released v \<longrightarrow>
      0 < remaining (refill t v)
      \<and> remaining (step t e v) = remaining (refill t v) - 1)"
proof -
  have a: "released (check force now w) \<noteq> released w \<longrightarrow>
      0 < remaining (refill now w)
      \<and> remaining (check force now w) = remaining (refill now w) - 1
      \<and> released (check force now w) = released w @ [hd (queue_list w)]"
    by (simp add: released_check remaining_check)
  have c: "released (step t e v) \<noteq> released v \<longrightarrow>
      0 < remaining (refill t v)
      \<and> remaining (step t e v) = remaining (refill t v) - 1"
  proof (cases e)
    case (Queue f p)
    then show ?thesis
      by (simp add: queue_def released_check remaining_check)
  next
    case (Done f)
    then show ?thesis
      by (simp add: complete_def Let_def released_check remaining_check)
  next
    case (Fire h)
    then show ?thesis
      by (simp add: fire_def wake_def released_check remaining_check)
  qed simp_all
  from a c show ?thesis by blast
qed

theorem release_needs_quota_witness:
  "released (check False 1000 queued_demo) \<noteq> released queued_demo
   \<and> 0 < remaining (refill 1000 queued_demo)
   \<and> remaining (check False 1000 queued_demo) = remaining (refill 1000 queued_demo) - 1
   \<and> remaining (check False 1000 queued_demo) = 4
   \<and> released (check False 1000 queued_demo) = [''a'']
   \<and> released (step 1002 (Done ''a'') busy_demo) \<noteq> released busy_demo
   \<and> 0 < remaining (refill 1002 busy_demo)
   \<and> remaining (step 1002 (Done ''a'') busy_demo) = remaining (refill 1002 busy_demo) - 1
   \<and> released (step 1002 (Done ''a'') busy_demo) = [''a'', ''b'']"
proof -
  have h1: "released (check False 1000 queued_demo) \<noteq> released queued_demo"
    by (simp add: demo_defs bucket_ops init_ops)
  have h2: "released (step 1002 (Done ''a'') busy_demo) \<noteq> released busy_demo"
    by (simp add: demo_defs bucket_ops init_ops)
  have v1: "remaining (refill 1000 queued_demo) = 5" "released queued_demo = []"
    "queue_list queued_demo = [''a'']"
    by (simp_all add: demo_defs bucket_ops init_ops)
  have v2: "released (step 1002 (Done ''a'') busy_demo) = [''a'', ''b'']"
    by (simp add: demo_defs bucket_ops init_ops)
  from release_needs_quota [of False 1000 queued_demo 1002 "Done ''a''" busy_demo] h1 h2 v1 v2
  show ?thesis by simp
qed

text \<open>
  Claim C3. An evaluation that reaches the quota check (the queue is not empty, and the
  bucket is idle or the evaluation is forced) first applies the refill step: when
  \<open>reset\<close> is \<open>0\<close> or less than \<open>now - offset\<close>, with \<open>offset\<close> the current latency, it
  sets \<open>reset\<close> to \<open>now - offset\<close> and \<open>remaining\<close> to \<open>limit\<close>, and otherwise it leaves
  both as they are. The release decision is taken on the values after this step.
\<close>

theorem refill_heuristic:
  assumes "queue_list w \<noteq> []" and "processing w = PFalse \<or> force"
  shows "(reset w = 0 \<or> reset w < now - latency (latencyRef w) \<longrightarrow>
            reset (refill now w) = now - latency (latencyRef w)
            \<and> remaining (refill now w) = limit w)
       \<and> (\<not> (reset w = 0 \<or> reset w < now - latency (latencyRef w)) \<longrightarrow>
            reset (refill now w) = reset w \<and> remaining (refill now w) = remaining w)
       \<and> reset (check force now w) = reset (refill now w)
       \<and> remaining (check force now w) =
           (if remaining (refill now w) \<le> 0 then remaining (refill now w)
            else remaining (refill now w) - 1)
       \<and> (released (check force now w) \<noteq> released w \<longleftrightarrow> 0 < remaining (refill now w))"
proof -
  have g: "\<not> truthy (processing w) \<or> force"
    using assms(2) by auto
  have r: "reset (check force now w) = reset (refill now w)"
    using assms(1) g
    by (cases "queue_list w")
       (auto simp: check_def wait_for_reset_def release_def Let_def)
  show ?thesis
    using assms(1) g r
    by (auto simp: released_check remaining_check) (simp_all add: refill_def Let_def)
qed

theorem refill_heuristic_witness:
  "queue_list busy_demo \<noteq> [] \<and> (processing busy_demo = PFalse \<or> True)
   \<and> reset busy_demo = 950 \<and> remaining busy_demo = 4
   \<and> reset busy_demo < 1002 - latency (latencyRef busy_demo)
   \<and> reset (refill 1002 busy_demo) = 952 \<and> remaining (refill 1002 busy_demo) = 5
   \<and> reset (check True 1002 busy_demo) = 952 \<and> remaining (check True 1002 busy_demo) = 4
   \<and> queue_list exhausted_demo \<noteq> [] \<and> (processing exhausted_demo = PFalse \<or> False)
   \<and> \<not> (reset exhausted_demo = 0 \<or> reset exhausted_demo < 5000 - latency (latencyRef exhausted_demo))
   \<and> reset (refill 5000 exhausted_demo) = 6000 \<and> remaining (refill 5000 exhausted_demo) = 0
   \<and> reset (check False 5000 exhausted_demo) = 6000
   \<and> remaining (check False 5000 exhausted_demo) = 0
   \<and> released (check False 5000 exhausted_demo) = released exhausted_demo"
proof -
  have b: "queue_list busy_demo \<noteq> []" "processing busy_demo = PFalse \<or> True"
    "reset busy_demo = 950" "remaining busy_demo = 4" "limit busy_demo = 5"
    "latency (latencyRef busy_demo) = 50"
    by (simp_all add: demo_defs bucket_ops init_ops)
  have x: "queue_list exhausted_demo \<noteq> []" "processing exhausted_demo = PFalse \<or> False"
    "reset exhausted_demo = 6000" "remaining exhausted_demo = 0"
    "latency (latencyRef exhausted_demo) = 50"
    by (simp_all add: demo_defs init_ops)
  from refill_heuristic [OF b(1,2), of 1002] refill_heuristic [OF x(1,2), of 5000] b x
  show ?thesis by auto
qed

text \<open>
  Claim C7. When the queue is not empty, no release is pending (or the evaluation is forced)
  and \<open>remaining\<close> is positive after the refill step, the evaluation itself takes the head
  of the queue and invokes it: the item is in flight when the evaluation returns, and no
  timer has been set.
\<close>

theorem release_is_synchronous:
  assumes "queue_list w = f # q" and "processing w = PFalse \<or> force"
    and "0 < remaining (refill now w)"
  shows "check force now w =
           (refill now w)\<lparr>last_ts := now, remaining := remaining (refill now w) - 1,
             processing := PTrue, queue_list := q,
             released := released w @ [f], inflight := inflight w @ [f]\<rparr>
         \<and> timers (check force now w) = timers w
         \<and> next_handle (check force now w) = next_handle w"
proof -
  have g: "\<not> truthy (processing w) \<or> force"
    using assms(2) by auto
  have "check force now w = release ((refill now w)\<lparr>last_ts := now\<rparr>)"
    using assms(1,3) g by (intro check_release) simp_all
  then show ?thesis
    using assms(1) by (simp add: release_def)
qed

theorem release_is_synchronous_witness:
  "queue_list queued_demo = ''a'' # [] \<and> (processing queued_demo = PFalse \<or> False)
   \<and> 0 < remaining (refill 1000 queued_demo)
   \<and> released (check False 1000 queued_demo) = [''a'']
   \<and> inflight (check False 1000 queued_demo) = [''a'']
   \<and> queue_list (check False 1000 queued_demo) = []
   \<and> processing (check False 1000 queued_demo) = PTrue
   \<and> timers (check False 1000 queued_demo) = []"
proof -
  have h: "queue_list queued_demo = ''a'' # []" "processing queued_demo = PFalse \<or> False"
    "0 < remaining (refill 1000 queued_demo)"
    by (simp_all add: demo_defs bucket_ops init_ops)
  have v: "released queued_demo = []" "inflight queued_demo = []" "timers queued_demo = []"
    by (simp_all add: demo_defs init_ops)
  have "released (check False 1000 queued_demo) = [''a'']
        \<and> inflight (check False 1000 queued_demo) = [''a'']
        \<and> queue_list (check False 1000 queued_demo) = []
        \<and> processing (check False 1000 queued_demo) = PTrue
        \<and> timers (check False 1000 queued_demo) = []"
    using release_is_synchronous [OF h] v by simp
  with h show ?thesis by simp
qed

text \<open>
  Claim C4. An evaluation that reaches the quota check with a non-empty queue and finds
  \<open>remaining \<le> 0\<close> after the refill step releases nothing, stores the handle of a new
  timer in \<^verbatim>\<open>processing\<close>, and adds exactly that one timer to the pending ones, with
  delay \<open>max 0 (reset - now + offset) + 1\<close>. The timer is due from that delay on, and when
  the runtime fires a due timer the callback sets \<^verbatim>\<open>processing\<close> to \<^verbatim>\<open>false\<close> and runs
  a forced evaluation from the top; the timer is no longer pending then.
\<close>

theorem exhaustion_path:
  assumes "queue_list w \<noteq> []" and "processing w = PFalse \<or> force"
    and "remaining (refill now w) \<le> 0"
  shows "check force now w =
           (refill now w)\<lparr>last_ts := now, processing := PTimeout (next_handle w),
             timers := timers w @
               [\<lparr>handle = next_handle w, set_at = now,
                 delay = max 0 (reset (refill now w) - now + latency (latencyRef w)) + 1\<rparr>],
             next_handle := Suc (next_handle w)\<rparr>
         \<and> released (check force now w) = released w
         \<and> inflight (check force now w) = inflight w
         \<and> queue_list (check force now w) = queue_list w
         \<and> (now + (max 0 (reset (refill now w) - now + latency (latencyRef w)) + 1) \<le> t \<longrightarrow>
              due t (next_handle w) (timers (check force now w)))
         \<and> (due t h (timers v) \<longrightarrow>
              fire t h v =
                check True t (v\<lparr>timers := clearTimeout h (timers v), processing := PFalse\<rparr>))"
proof -
  have g: "\<not> truthy (processing w) \<or> force"
    using assms(2) by auto
  have e: "check force now w = wait_for_reset now ((refill now w)\<lparr>last_ts := now\<rparr>)"
    using assms(1,3) g by (intro check_wait) simp_all
  show ?thesis
    unfolding e by (simp add: wait_for_reset_def Let_def fire_def wake_def due_def)
qed

theorem exhaustion_path_witness:
  "queue_list exhausted_demo \<noteq> [] \<and> (processing exhausted_demo = PFalse \<or> False)
   \<and> remaining (refill 5000 exhausted_demo) \<le> 0
   \<and> released (check False 5000 exhausted_demo) = []
   \<and> processing (check False 5000 exhausted_demo) = PTimeout 0
   \<and> timers (check False 5000 exhausted_demo) = [\<lparr>handle = 0, set_at = 5000, delay = 1051\<rparr>]
   \<and> due 6051 0 (timers (check False 5000 exhausted_demo))
   \<and> fire 6051 0 (check False 5000 exhausted_demo) =
       check True 6051
         ((check False 5000 exhausted_demo)\<lparr>timers := clearTimeout 0 (timers (check False 5000 exhausted_demo)),
            processing := PFalse\<rparr>)"
proof -
  have h: "queue_list exhausted_demo \<noteq> []" "processing exhausted_demo = PFalse \<or> False"
    "remaining (refill 5000 exhausted_demo) \<le> 0"
    by (simp_all add: demo_defs bucket_ops init_ops)
  have v: "reset (refill 5000 exhausted_demo) = 6000" "latency (latencyRef exhausted_demo) = 50"
    "timers exhausted_demo = []" "next_handle exhausted_demo = 0" "released exhausted_demo = []"
    by (simp_all add: demo_defs bucket_ops init_ops)
  have c: "released (check False 5000 exhausted_demo) = []"
    "processing (check False 5000 exhausted_demo) = PTimeout 0"
    "timers (check False 5000 exhausted_demo) = [\<lparr>handle = 0, set_at = 5000, delay = 1051\<rparr>]"
    by (simp_all add: demo_defs bucket_ops init_ops)
  note t = exhaustion_path [OF h, of 6051 0 "check False 5000 exhausted_demo"]
  have "5000 + (max 0 (reset (refill 5000 exhausted_demo) - 5000
          + latency (latencyRef exhausted_demo)) + 1) \<le> (6051 :: int)"
    by (simp add: v)
  with t have "due 6051 (next_handle exhausted_demo) (timers (check False 5000 exhausted_demo))"
    by blast
  then have d: "due 6051 0 (timers (check False 5000 exhausted_demo))"
    by (simp add: v)
  with t have "fire 6051 0 (check False 5000 exhausted_demo) =
       check True 6051
         ((check False 5000 exhausted_demo)\<lparr>timers := clearTimeout 0 (timers (check False 5000 exhausted_demo)),
            processing := PFalse\<rparr>)"
    by blast
  with h c d show ?thesis by blast
qed

text \<open>
  Claim C8. When the queue is not empty and a release is in progress or a wake-up is
  scheduled, an evaluation that is not forced returns the bucket and its environment as they
  were: no field changes and nothing is released, however often the call is repeated.
\<close>

theorem check_idempotent:
  assumes "queue_list w \<noteq> []" and "processing w = PTrue \<or> processing w = PTimeout h"
  shows "check False now w = w \<and> fold (check False) nows w = w"
proof -
  have one: "check False t w = w" for t
    using assms by (auto simp: check_def)
  have "fold (check False) nows w = w"
    by (induction nows) (simp_all add: one)
  with one show ?thesis by simp
qed

theorem check_idempotent_witness:
  "queue_list busy_demo \<noteq> [] \<and> (processing busy_demo = PTrue \<or> processing busy_demo = PTimeout 0)
   \<and> inflight busy_demo = [''a'']
   \<and> check False 1002 busy_demo = busy_demo
   \<and> fold (check False) [1002, 1003, 2000] busy_demo = busy_demo"
proof -
  have h: "queue_list busy_demo \<noteq> []" "processing busy_demo = PTrue \<or> processing busy_demo = PTimeout 0"
    "inflight busy_demo = [''a'']"
    by (simp_all add: demo_defs bucket_ops init_ops)
  from check_idempotent [OF h(1,2), of 1002 "[1002, 1003, 2000]"] h show ?thesis by blast
qed

text \<open>
  Claim C9. A freshly constructed bucket has \<open>remaining\<close> equal to \<open>limit\<close>, \<open>reset\<close> and
  \<open>last\<close> equal to \<open>0\<close>, an empty queue and \<^verbatim>\<open>processing = false\<close>; no timer is pending
  and nothing is in flight. Its first evaluation, the one of the first \<^verbatim>\<open>queue\<close> call,
  takes the refill branch. This holds for every limit, the positive ones included.
\<close>

theorem constructor_initial_state:
  "constructor lim lref =
     \<lparr>queue_list = [], last_ts = 0, latencyRef = lref, limit = lim,
      processing = PFalse, remaining = lim, reset = 0\<rparr>
   \<and> remaining (init lim lref :: 'f world) = lim
   \<and> limit (init lim lref :: 'f world) = lim
   \<and> reset (init lim lref :: 'f world) = 0
   \<and> last_ts (init lim lref :: 'f world) = 0
   \<and> queue_list (init lim lref :: 'f world) = []
   \<and> processing (init lim lref :: 'f world) = PFalse
   \<and> timers (init lim lref :: 'f world) = []
   \<and> inflight (init lim lref :: 'f world) = []
   \<and> released (init lim lref :: 'f world) = []
   \<and> reset (queue now f p (init lim lref)) = now - latency lref
   \<and> remaining (refill now (init lim lref :: 'f world)) = lim"
  by (simp add: init_ops bucket_ops Let_def split: list.splits)

theorem constructor_initial_state_witness:
  "remaining (init 5 \<lparr>latency = 50\<rparr> :: string world) = 5
   \<and> reset (init 5 \<lparr>latency = 50\<rparr> :: string world) = 0
   \<and> last_ts (init 5 \<lparr>latency = 50\<rparr> :: string world) = 0
   \<and> queue_list (init 5 \<lparr>latency = 50\<rparr> :: string world) = []
   \<and> processing (init 5 \<lparr>latency = 50\<rparr> :: string world) = PFalse
   \<and> reset (queue 1000 ''a'' False (init 5 \<lparr>latency = 50\<rparr>)) = 950"
proof -
  have "remaining (init 5 \<lparr>latency = 50\<rparr> :: string world) = 5
   \<and> reset (init 5 \<lparr>latency = 50\<rparr> :: string world) = 0
   \<and> last_ts (init 5 \<lparr>latency = 50\<rparr> :: string world) = 0
   \<and> queue_list (init 5 \<lparr>latency = 50\<rparr> :: string world) = []
   \<and> processing (init 5 \<lparr>latency = 50\<rparr> :: string world) = PFalse
   \<and> reset (queue 1000 ''a'' False (init 5 \<lparr>latency = 50\<rparr>)) = 1000 - latency \<lparr>latency = 50\<rparr>"
    using constructor_initial_state [of 5 "\<lparr>latency = 50\<rparr>" 1000 "''a''" False]
    by blast
  then show ?thesis by simp
qed

text \<open>
  Claim C10. No operation of the bucket writes \<open>limit\<close> or the shared latency: the
  evaluation, \<^verbatim>\<open>queue\<close>, the timer callback and the completion callback return with both
  as they found them. Over the events of a trace, \<open>limit\<close> and the latency change only
  by an overwrite from outside and then hold the value written.
\<close>

theorem frame_limit_latency:
  "limit (check force now w) = limit w \<and> latencyRef (check force now w) = latencyRef w
   \<and> limit (queue now f p w) = limit w \<and> latencyRef (queue now f p w) = latencyRef w
   \<and> limit (wake now w) = limit w \<and> latencyRef (wake now w) = latencyRef w
   \<and> limit (fire now h w) = limit w \<and> latencyRef (fire now h w) = latencyRef w
   \<and> limit (complete now f w) = limit w \<and> latencyRef (complete now f w) = latencyRef w
   \<and> limit (step now e w) = (case e of WriteLimit n \<Rightarrow> n | _ \<Rightarrow> limit w)
   \<and> latencyRef (step now e w) = (case e of WriteLatency n \<Rightarrow> \<lparr>latency = n\<rparr> | _ \<Rightarrow> latencyRef w)"
proof -
  have c: "limit (check b t v) = limit v \<and> latencyRef (check b t v) = latencyRef v"
    for b t and v :: "'a world"
    by (simp add: check_def go_idle_def refill_def wait_for_reset_def release_def Let_def
             split: list.splits processing.splits)
  have ops: "limit (queue now f p w) = limit w \<and> latencyRef (queue now f p w) = latencyRef w
   \<and> limit (wake now w) = limit w \<and> latencyRef (wake now w) = latencyRef w
   \<and> limit (fire now h w) = limit w \<and> latencyRef (fire now h w) = latencyRef w
   \<and> limit (complete now f w) = limit w \<and> latencyRef (complete now f w) = latencyRef w"
    by (simp add: queue_def wake_def fire_def complete_def Let_def c)
  have s: "limit (step now e w) = (case e of WriteLimit n \<Rightarrow> n | _ \<Rightarrow> limit w)
   \<and> latencyRef (step now e w) = (case e of WriteLatency n \<Rightarrow> \<lparr>latency = n\<rparr> | _ \<Rightarrow> latencyRef w)"
    by (cases e) (simp_all add: queue_def wake_def fire_def complete_def Let_def c)
  from c [of force now w] ops s show ?thesis by simp
qed

theorem frame_limit_latency_witness:
  "limit (check True 1002 busy_demo) = 5 \<and> latency (latencyRef (check True 1002 busy_demo)) = 50
   \<and> processing (check True 1002 busy_demo) = PTrue \<and> reset (check True 1002 busy_demo) \<noteq> reset busy_demo
   \<and> limit (step 1002 (Done ''a'') busy_demo) = 5
   \<and> limit (step 1002 (WriteLimit 7) busy_demo) = 7"
proof -
  have v: "limit busy_demo = 5" "latencyRef busy_demo = \<lparr>latency = 50\<rparr>"
    "processing (check True 1002 busy_demo) = PTrue \<and> reset (check True 1002 busy_demo) \<noteq> reset busy_demo"
    by (simp_all add: demo_defs bucket_ops init_ops)
  from frame_limit_latency [of True 1002 busy_demo "''a''" False 0 "Done ''a''"]
    frame_limit_latency [of True 1002 busy_demo "''a''" False 0 "WriteLimit 7"] v
  show ?thesis by simp
qed

text \<open>
  Claim C5, as stated: with \<open>remaining = 0\<close>, \<open>reset = now + 1000\<close> and a latency of 50
  the wake-up fires at about \<open>now + 950\<close>. On the code the timer is set with a delay of
  1051, so at \<open>now + 950\<close> it is not due and firing does nothing; and if the callback did
  run at \<open>now + 950\<close>, the window would not count as elapsed and nothing would be released.
  Here \<open>now = 5000\<close>.
\<close>

theorem wake_up_at_950_counterexample:
  "remaining exhausted_demo = 0 \<and> reset exhausted_demo = 5000 + 1000
   \<and> latency (latencyRef exhausted_demo) = 50
   \<and> timers (check False 5000 exhausted_demo) = [\<lparr>handle = 0, set_at = 5000, delay = 1051\<rparr>]
   \<and> \<not> due (5000 + 950) 0 (timers (check False 5000 exhausted_demo))
   \<and> fire (5000 + 950) 0 (check False 5000 exhausted_demo) = check False 5000 exhausted_demo
   \<and> released (fire (5000 + 950) 0 (check False 5000 exhausted_demo)) = []
   \<and> released (wake (5000 + 950) (check False 5000 exhausted_demo)) = []
   \<and> remaining (wake (5000 + 950) (check False 5000 exhausted_demo)) = 0"
  by (simp add: demo_defs bucket_ops init_ops)

text \<open>
  Claim C5, amended. On an idle bucket with a positive limit, a queued item,
  \<open>remaining = 0\<close>, \<open>reset = now + 1000\<close> and a latency of 50, the evaluation at \<open>now\<close>
  sets one timer with delay \<open>1051 = (reset - now + offset) + 1\<close> and releases nothing.
  Before \<open>now + 1051\<close> the timer does not fire. When it fires, at \<open>now + 1051\<close> or later,
  \<open>remaining\<close> is reset to \<open>limit\<close> and the held item is released, which leaves
  \<open>remaining = limit - 1\<close>.
\<close>

theorem wake_up_scenario:
  assumes "queue_list w = f # q" and "processing w = PFalse" and "timers w = []"
    and "remaining w = 0" and "reset w = now + 1000" and "latency (latencyRef w) = 50"
    and "0 \<le> now" and "0 < limit w"
  shows "timers (check False now w) = [\<lparr>handle = next_handle w, set_at = now, delay = 1051\<rparr>]
       \<and> released (check False now w) = released w
       \<and> (t < now + 1051 \<longrightarrow>
            fire t (next_handle w) (check False now w) = check False now w)
       \<and> (now + 1051 \<le> t \<longrightarrow>
            released (fire t (next_handle w) (check False now w)) = released w @ [f]
            \<and> remaining (fire t (next_handle w) (check False now w)) = limit w - 1
            \<and> reset (fire t (next_handle w) (check False now w)) = t - 50
            \<and> queue_list (fire t (next_handle w) (check False now w)) = q
            \<and> timers (fire t (next_handle w) (check False now w)) = [])"
proof -
  let ?v = "check False now w"
  have r: "refill now w = w"
    using assms(5,6,7) by (simp add: refill_def)
  have v: "?v = w\<lparr>last_ts := now, processing := PTimeout (next_handle w),
             timers := [\<lparr>handle = next_handle w, set_at = now, delay = 1051\<rparr>],
             next_handle := Suc (next_handle w)\<rparr>"
    using assms by (simp add: check_def r wait_for_reset_def Let_def)
  have early: "t < now + 1051 \<longrightarrow> fire t (next_handle w) ?v = ?v"
    unfolding v by (simp add: fire_def due_def)
  have late: "released (fire t (next_handle w) ?v) = released w @ [f]
            \<and> remaining (fire t (next_handle w) ?v) = limit w - 1
            \<and> reset (fire t (next_handle w) ?v) = t - 50
            \<and> queue_list (fire t (next_handle w) ?v) = q
            \<and> timers (fire t (next_handle w) ?v) = []" if "now + 1051 \<le> t"
    unfolding v using that assms
    by (simp add: fire_def due_def wake_def clearTimeout_def check_def refill_def release_def Let_def)
  from v early late show ?thesis by simp
qed

theorem wake_up_scenario_witness:
  "queue_list exhausted_demo = ''a'' # [] \<and> processing exhausted_demo = PFalse
   \<and> timers exhausted_demo = [] \<and> remaining exhausted_demo = 0
   \<and> reset exhausted_demo = 5000 + 1000 \<and> latency (latencyRef exhausted_demo) = 50
   \<and> (0::int) \<le> 5000 \<and> 0 < limit exhausted_demo
   \<and> timers (check False 5000 exhausted_demo) = [\<lparr>handle = 0, set_at = 5000, delay = 1051\<rparr>]
   \<and> released (fire 6051 0 (check False 5000 exhausted_demo)) = [''a'']
   \<and> remaining (fire 6051 0 (check False 5000 exhausted_demo)) = 4
   \<and> reset (fire 6051 0 (check False 5000 exhausted_demo)) = 6001"
proof -
  have h: "queue_list exhausted_demo = ''a'' # []" "processing exhausted_demo = PFalse"
    "timers exhausted_demo = []" "remaining exhausted_demo = 0"
    "reset exhausted_demo = 5000 + 1000" "latency (latencyRef exhausted_demo) = 50"
    "(0::int) \<le> 5000" "0 < limit exhausted_demo"
    by (simp_all add: demo_defs init_ops)
  have v: "next_handle exhausted_demo = 0" "released exhausted_demo = []" "limit exhausted_demo = 5"
    by (simp_all add: demo_defs init_ops)
  note t = wake_up_scenario [OF h, of 6051]
  have "timers (check False 5000 exhausted_demo) = [\<lparr>handle = 0, set_at = 5000, delay = 1051\<rparr>]
   \<and> released (fire 6051 0 (check False 5000 exhausted_demo)) = [''a'']
   \<and> remaining (fire 6051 0 (check False 5000 exhausted_demo)) = 4
   \<and> reset (fire 6051 0 (check False 5000 exhausted_demo)) = 6001"
    using t by (simp add: v)
  with h show ?thesis by blast
qed

subsection \<open>The order of release\<close>

lemma run_append: "run (es @ es') w = run es' (run es w)"
  by (induction es arbitrary: w) auto

lemma run_snoc: "run (es @ [(now, e)]) w = step now e (run es w)"
  by (simp add: run_append)

lemma sched_check: "sched (check force now w) = sched w"
  by (cases "queue_list w")
     (auto simp: sched_def check_def go_idle_def refill_def wait_for_reset_def release_def Let_def
           split: processing.splits)

lemma sched_step_queue:
  "sched (step now (Queue f p) w) =
     (if p then released w @ f # queue_list w else sched w @ [f])"
  by (simp add: queue_def sched_check) (simp add: sched_def)

lemma sched_step_other:
  assumes "enq_item (now, e) = []"
  shows "sched (step now e w) = sched w"
proof (cases e)
  case (Queue f p)
  with assms show ?thesis by simp
next
  case (Done f)
  have "sched (complete now f w) = sched w"
    by (simp add: complete_def Let_def sched_check) (simp add: sched_def)
  with Done show ?thesis by simp
next
  case (Fire h)
  have "sched (fire now h w) = sched w"
    by (simp add: fire_def wake_def sched_check) (simp add: sched_def)
  with Fire show ?thesis by simp
qed (simp_all add: sched_def)

lemma normal_item_subset: "set (normal_item x) \<subseteq> set (enq_item x)"
  by (cases x rule: normal_item.cases) auto

lemma normals_subset: "set (normals es) \<subseteq> set (enqueued es)"
  using normal_item_subset by (fastforce simp: normals_def enqueued_def)

lemma enqueued_append: "enqueued (es @ es') = enqueued es @ enqueued es'"
  by (simp add: enqueued_def)

lemma normals_append: "normals (es @ es') = normals es @ normals es'"
  by (simp add: normals_def)

lemma sched_init: "sched (init lim lref) = []"
  by (simp add: sched_def init_ops)

text \<open>
  When no work item is passed to \<^verbatim>\<open>queue\<close> twice, \<open>sched\<close> holds every item passed so far
  once, and the normal ones among them in the order of their calls.
\<close>

lemma sched_run:
  assumes "distinct (enqueued es)"
  shows "distinct (sched (run es (init lim lref)))
       \<and> set (sched (run es (init lim lref))) = set (enqueued es)
       \<and> filter (\<lambda>f. f \<in> set (normals es)) (sched (run es (init lim lref))) = normals es"
  using assms
proof (induction es rule: rev_induct)
  case Nil
  show ?case
    by (simp add: sched_init) (simp add: enqueued_def normals_def)
next
  case (snoc x es)
  obtain now e where x: "x = (now, e)" by (cases x)
  let ?w = "run es (init lim lref)"
  from snoc.prems have d: "distinct (enqueued es)"
    by (simp add: enqueued_append)
  note ih = snoc.IH [OF d]
  show ?case
  proof (cases "enq_item x = []")
    case True
    with normal_item_subset [of x] have n: "normal_item x = []" by simp
    from True have "sched (run (es @ [x]) (init lim lref)) = sched ?w"
      by (simp add: x run_snoc sched_step_other del: step.simps)
    with ih True n show ?thesis
      by (simp add: enqueued_append normals_append enqueued_def normals_def)
  next
    case False
    then obtain f p where e: "e = Queue f p"
      by (cases e) (simp_all add: x)
    from snoc.prems have fresh: "f \<notin> set (enqueued es)"
      by (simp add: enqueued_append x e enqueued_def)
    with ih have f1: "f \<notin> set (sched ?w)" by simp
    from fresh normals_subset [of es] have f2: "f \<notin> set (normals es)" by auto
    have en: "enqueued (es @ [x]) = enqueued es @ [f]"
      by (simp add: enqueued_append x e) (simp add: enqueued_def)
    show ?thesis
    proof (cases p)
      case True
      have s: "sched (run (es @ [x]) (init lim lref)) = released ?w @ f # queue_list ?w"
        by (simp add: x e True run_snoc sched_step_queue del: step.simps)
      have no: "normals (es @ [x]) = normals es"
        by (simp add: normals_append x e True) (simp add: normals_def)
      have "filter (\<lambda>g. g \<in> set (normals es)) (released ?w @ f # queue_list ?w)
            = filter (\<lambda>g. g \<in> set (normals es)) (sched ?w)"
        using f2 by (simp add: sched_def)
      with ih f1 show ?thesis
        unfolding s en no by (auto simp: sched_def)
    next
      case False
      have s: "sched (run (es @ [x]) (init lim lref)) = sched ?w @ [f]"
        by (simp add: x e False run_snoc sched_step_queue del: step.simps)
      have no: "normals (es @ [x]) = normals es @ [f]"
        by (simp add: normals_append x e False) (simp add: normals_def)
      have "filter (\<lambda>g. g = f \<or> g \<in> set (normals es)) (sched ?w)
            = filter (\<lambda>g. g \<in> set (normals es)) (sched ?w)"
        using f1 by (intro filter_cong) auto
      with ih f1 show ?thesis
        unfolding s en no by auto
    qed
  qed
qed

lemma precedes_snoc: "precedes a b xs \<Longrightarrow> precedes a b (xs @ ys)"
  unfolding precedes_def by (induction xs) (auto split: if_splits)

lemma precedes_insert: "precedes a b (xs @ ys) \<Longrightarrow> c \<noteq> b \<Longrightarrow> precedes a b (xs @ c # ys)"
  unfolding precedes_def by (induction xs) (auto split: if_splits)

lemma precedes_first: "b \<notin> set xs \<Longrightarrow> a \<noteq> b \<Longrightarrow> precedes a b (xs @ a # ys)"
  unfolding precedes_def by (induction xs) auto

lemma precedes_prefix: "precedes a b (xs @ ys) \<Longrightarrow> b \<in> set xs \<Longrightarrow> precedes a b xs"
  unfolding precedes_def by (induction xs) (auto split: if_splits)

lemma distinct_enqueued_prefix: "distinct (enqueued (es @ es')) \<Longrightarrow> distinct (enqueued es)"
  by (simp add: enqueued_append)

lemma distinct_enqueued_snoc:
  assumes "distinct (enqueued (es @ [y]))"
  shows "distinct (enqueued es)" and "set (enq_item y) \<inter> set (enqueued es) = {}"
  using assms by (auto simp: enqueued_append enqueued_def)

text \<open>
  An item passed with priority stands in \<open>sched\<close> before everything that was queued at
  that moment, and stays there.
\<close>

lemma priority_first:
  assumes "distinct (enqueued (es1 @ (now, Queue p True) # es2))"
    and "x \<in> set (queue_list (run es1 (init lim lref)))"
  shows "precedes p x (sched (run (es1 @ (now, Queue p True) # es2) (init lim lref)))"
  using assms(1)
proof (induction es2 rule: rev_induct)
  case Nil
  let ?w = "run es1 (init lim lref)"
  from Nil have d: "distinct (enqueued es1)" and fresh: "p \<notin> set (enqueued es1)"
    by (simp_all add: enqueued_append) (simp add: enqueued_def)
  note inv = sched_run [OF d, of lim lref]
  from inv assms(2) have "x \<notin> set (released ?w)" and "x \<in> set (enqueued es1)"
    by (auto simp: sched_def)
  with fresh have "precedes p x (released ?w @ p # queue_list ?w)"
    by (intro precedes_first) auto
  then show ?case
    by (simp add: run_snoc sched_step_queue del: step.simps)
next
  case (snoc y es2)
  obtain t e where y: "y = (t, e)" by (cases y)
  let ?es = "es1 @ (now, Queue p True) # es2"
  let ?w = "run ?es (init lim lref)"
  from snoc.prems have pre: "distinct (enqueued (?es @ [y]))" by simp
  note d = distinct_enqueued_snoc(1) [OF pre]
  note ih = snoc.IH [OF d]
  from d have "distinct (enqueued es1)" by (simp add: enqueued_append)
  from sched_run [OF this, of lim lref] assms(2) have xin: "x \<in> set (enqueued ?es)"
    by (auto simp: sched_def enqueued_append)
  have st: "run (es1 @ (now, Queue p True) # es2 @ [y]) (init lim lref) = step t e ?w"
    using run_snoc [of ?es t e "init lim lref"] by (simp add: y del: step.simps)
  show ?case
  proof (cases "enq_item y = []")
    case True
    then have "sched (step t e ?w) = sched ?w"
      by (simp add: y sched_step_other del: step.simps)
    with ih show ?thesis unfolding st by simp
  next
    case False
    then obtain f pr where e: "e = Queue f pr"
      by (cases e) (simp_all add: y)
    from distinct_enqueued_snoc(2) [OF pre] have "f \<notin> set (enqueued ?es)"
      by (simp add: y e)
    with xin have ne: "f \<noteq> x" by auto
    have "precedes p x (sched (step t (Queue f pr) ?w))"
    proof (cases pr)
      case True
      from ih have "precedes p x (released ?w @ queue_list ?w)"
        by (simp add: sched_def)
      then have "precedes p x (released ?w @ f # queue_list ?w)"
        using ne by (rule precedes_insert)
      with True show ?thesis by (simp add: sched_step_queue del: step.simps)
    next
      case False
      from ih have "precedes p x (sched ?w @ [f])" by (rule precedes_snoc)
      with False show ?thesis by (simp add: sched_step_queue del: step.simps)
    qed
    then show ?thesis unfolding st e .
  qed
qed

text \<open>
  Claim C6. In a trace on a fresh bucket in which no work item is passed to \<^verbatim>\<open>queue\<close>
  twice: the normal items released so far are, in the order of their release, an initial
  part of the normal items in the order of their \<^verbatim>\<open>queue\<close> calls; an item passed with
  priority is released before every item that was queued when it was passed; and of two
  items passed with priority, the first still unreleased when the second is passed, the
  second is released first.
\<close>

theorem release_order:
  assumes "distinct (enqueued es)"
  shows "prefix (filter (\<lambda>f. f \<in> set (normals es)) (released (run es (init lim lref))))
           (normals es)
       \<and> (es = es1 @ (now, Queue p True) # es2
            \<and> x \<in> set (queue_list (run es1 (init lim lref)))
            \<and> x \<in> set (released (run es (init lim lref)))
          \<longrightarrow> precedes p x (released (run es (init lim lref))))
       \<and> (es = es3 @ (t1, Queue p1 True) # es4 @ (t2, Queue p2 True) # es5
            \<and> p1 \<notin> set (released (run (es3 @ (t1, Queue p1 True) # es4) (init lim lref)))
            \<and> p1 \<in> set (released (run es (init lim lref)))
          \<longrightarrow> precedes p2 p1 (released (run es (init lim lref))))"
proof -
  let ?w = "run es (init lim lref)"
  have before: "precedes a b (released ?w)"
    if "es = esa @ (t, Queue a True) # esb" "b \<in> set (queue_list (run esa (init lim lref)))"
      "b \<in> set (released ?w)" for a b esa esb t
  proof -
    from assms that(1,2) have "precedes a b (sched ?w)"
      by (simp add: priority_first)
    then have "precedes a b (released ?w @ queue_list ?w)"
      by (simp add: sched_def)
    then show ?thesis
      using that(3) by (rule precedes_prefix)
  qed
  have fifo: "prefix (filter (\<lambda>f. f \<in> set (normals es)) (released ?w)) (normals es)"
  proof -
    from sched_run [OF assms, of lim lref]
    have "filter (\<lambda>f. f \<in> set (normals es)) (released ?w)
            @ filter (\<lambda>f. f \<in> set (normals es)) (queue_list ?w) = normals es"
      by (simp add: sched_def)
    then show ?thesis by (metis prefixI)
  qed
  have rev: "precedes p2 p1 (released ?w)"
    if e: "es = es3 @ (t1, Queue p1 True) # es4 @ (t2, Queue p2 True) # es5"
      and n: "p1 \<notin> set (released (run (es3 @ (t1, Queue p1 True) # es4) (init lim lref)))"
      and r: "p1 \<in> set (released ?w)"
  proof -
    let ?pre = "es3 @ (t1, Queue p1 True) # es4"
    have e': "es = ?pre @ (t2, Queue p2 True) # es5"
      by (simp add: e)
    from assms have "distinct (enqueued (?pre @ (t2, Queue p2 True) # es5))"
      by (simp add: e)
    then have "distinct (enqueued ?pre)"
      by (rule distinct_enqueued_prefix)
    from sched_run [OF this, of lim lref]
    have "p1 \<in> set (sched (run ?pre (init lim lref)))"
      by (simp add: enqueued_append) (simp add: enqueued_def)
    with n have "p1 \<in> set (queue_list (run ?pre (init lim lref)))"
      by (simp add: sched_def)
    with e' show ?thesis using r by (rule before)
  qed
  from fifo before rev show ?thesis by blast
qed

theorem release_order_witness:
  "distinct (enqueued order_trace)
   \<and> released (run order_trace (init 5 \<lparr>latency = 50\<rparr>)) = [''a'', ''q'', ''p'', ''b'', ''c'']
   \<and> normals order_trace = [''a'', ''b'', ''c'']
   \<and> prefix (filter (\<lambda>f. f \<in> set (normals order_trace))
               (released (run order_trace (init 5 \<lparr>latency = 50\<rparr>))))
        (normals order_trace)
   \<and> order_trace = take 3 order_trace @ (3, Queue ''p'' True) # drop 4 order_trace
   \<and> ''b'' \<in> set (queue_list (run (take 3 order_trace) (init 5 \<lparr>latency = 50\<rparr>)))
   \<and> ''b'' \<in> set (released (run order_trace (init 5 \<lparr>latency = 50\<rparr>)))
   \<and> precedes ''p'' ''b'' (released (run order_trace (init 5 \<lparr>latency = 50\<rparr>)))
   \<and> order_trace = take 3 order_trace @ (3, Queue ''p'' True) # [] @ (4, Queue ''q'' True)
        # drop 5 order_trace
   \<and> ''p'' \<notin> set (released (run (take 3 order_trace @ (3, Queue ''p'' True) # [])
                               (init 5 \<lparr>latency = 50\<rparr>)))
   \<and> ''p'' \<in> set (released (run order_trace (init 5 \<lparr>latency = 50\<rparr>)))
   \<and> precedes ''q'' ''p'' (released (run order_trace (init 5 \<lparr>latency = 50\<rparr>)))"
proof -
  let ?i = "init 5 \<lparr>latency = 50\<rparr> :: string world"
  have d: "distinct (enqueued order_trace)"
    by (simp add: order_trace_def enqueued_def)
  have v: "released (run order_trace ?i) = [''a'', ''q'', ''p'', ''b'', ''c'']"
    "normals order_trace = [''a'', ''b'', ''c'']"
    by (simp_all add: order_trace_def normals_def bucket_ops init_ops)
  have h1: "order_trace = take 3 order_trace @ (3, Queue ''p'' True) # drop 4 order_trace"
    "''b'' \<in> set (queue_list (run (take 3 order_trace) ?i))"
    "''b'' \<in> set (released (run order_trace ?i))"
    by (simp_all add: order_trace_def bucket_ops init_ops)
  have h2: "order_trace = take 3 order_trace @ (3, Queue ''p'' True) # [] @ (4, Queue ''q'' True)
        # drop 5 order_trace"
    "''p'' \<notin> set (released (run (take 3 order_trace @ (3, Queue ''p'' True) # []) ?i))"
    "''p'' \<in> set (released (run order_trace ?i))"
    by (simp_all add: order_trace_def bucket_ops init_ops)
  note t = release_order [OF d, of 5 "\<lparr>latency = 50\<rparr>"
      "take 3 order_trace" 3 "''p''" "drop 4 order_trace" "''b''"
      "take 3 order_trace" 3 "''p''" "[]" 4 "''q''" "drop 5 order_trace"]
  from t have c1: "prefix (filter (\<lambda>f. f \<in> set (normals order_trace)) (released (run order_trace ?i)))
        (normals order_trace)"
    by blast
  from t h1 have c2: "precedes ''p'' ''b'' (released (run order_trace ?i))"
    by blast
  from t h2 have c3: "precedes ''q'' ''p'' (released (run order_trace ?i))"
    by blast
  from d v h1 h2 c1 c2 c3 show ?thesis by blast
qed

end
